theory Spec2Isabelle
  imports Complex_Main "HOL-Library.Log_Nat"
begin

section \<open>The query provider of \<^verbatim>\<open>src/lib/index.tsx\<close>\<close>

text \<open>
  \<^verbatim>\<open>generateQueryProvider\<close> closes over two private maps, \<^verbatim>\<open>map\<close> (query key to
  \<^verbatim>\<open>{ insertedAt, data }\<close>) and \<^verbatim>\<open>listeners\<close> (query key to an array of callbacks), and
  returns the methods \<^verbatim>\<open>get\<close>, \<^verbatim>\<open>set\<close>, \<^verbatim>\<open>attachListener\<close>, \<^verbatim>\<open>invalidateCache\<close> and
  \<^verbatim>\<open>fetch\<close>. The embedding passes the two maps explicitly, together with the two things
  the methods read from their environment: the wall clock behind \<^verbatim>\<open>Date.now()\<close>
  (milliseconds, an integer) and whatever the fetch function talks to (\<open>outside\<close>).
  The variable \<^verbatim>\<open>map\<close> is the field \<open>cachemap\<close> and the method \<^verbatim>\<open>set\<close> is \<open>set_entry\<close>;
  every other name is the source's.

  \<^verbatim>\<open>debugPrint\<close> only writes to the console; it has no part in the model.
\<close>

subsection \<open>Numbers\<close>

text \<open>
  Line 59 computes \<^verbatim>\<open>(Date.now() - cache.insertedAt) / 1000\<close> on JavaScript numbers, which
  are IEEE 754 doubles. The two times are values of \<^verbatim>\<open>Date.now()\<close>: integers from 0 to
  8.64e15, below \<open>2 ^ 53\<close>, so their difference is exact. The quotient is not: the division
  gives the double nearest to the exact quotient, ties going to the even mantissa. For an
  integer of that size divided by 1000 the quotient is zero or lies between \<open>2 ^ -10\<close> and
  \<open>2 ^ 44\<close>, far from the smallest and the largest doubles, so rounding to a mantissa of
  53 bits is all that happens.
\<close>

definition round_half_even :: "rat \<Rightarrow> int" where
  "round_half_even y =
     (let f = \<lfloor>y\<rfloor>; r = y - of_int f
      in if r < 1/2 then f else if 1/2 < r then f + 1 else if even f then f else f + 1)"

text \<open>The binary exponent of a positive number: \<open>2 powi expo x \<le> x < 2 powi (expo x + 1)\<close>.\<close>

definition expo :: "rat \<Rightarrow> int" where
  "expo x =
     (case quotient_of x of
        (p, q) \<Rightarrow> (let d = bitlen p - bitlen q in if 2 powi d \<le> x then d else d - 1))"

definition round53 :: "rat \<Rightarrow> rat" where
  "round53 x = (let q = 2 powi (expo x - 52) in of_int (round_half_even (x / q)) * q)"

text \<open>The double nearest to a number.\<close>

definition double :: "rat \<Rightarrow> rat" where
  "double x = (if x = 0 then 0 else if 0 < x then round53 x else - round53 (- x))"

text \<open>
  A number a caller can pass as \<^verbatim>\<open>timeoutInSeconds\<close>. \<open>Num x\<close> is the double nearest to
  \<open>x\<close>, as the literal \<^verbatim>\<open>1.001\<close> is the double nearest to 1001/1000; every finite double
  \<open>d\<close> is \<open>Num d\<close>. A literal beyond the largest double is one of the infinities.
\<close>

datatype number = Num rat | PlusInfinity | MinusInfinity | NaN

text \<open>\<^verbatim>\<open>q > t\<close> for a finite double \<open>q\<close>.\<close>

fun exceeds :: "rat \<Rightarrow> number \<Rightarrow> bool" where
  "exceeds q (Num t) \<longleftrightarrow> double t < q"
| "exceeds q PlusInfinity \<longleftrightarrow> False"
| "exceeds q MinusInfinity \<longleftrightarrow> True"
| "exceeds q NaN \<longleftrightarrow> False"

text \<open>
  The same comparison in exact arithmetic: an age in milliseconds against a time to live
  in seconds, \<open>age < ttl * 1000\<close> and \<open>age \<le> ttl * 1000\<close>.
\<close>

fun age_below :: "int \<Rightarrow> number \<Rightarrow> bool" where
  "age_below age (Num t) \<longleftrightarrow> of_int age < double t * 1000"
| "age_below age PlusInfinity \<longleftrightarrow> True"
| "age_below age MinusInfinity \<longleftrightarrow> False"
| "age_below age NaN \<longleftrightarrow> False"

fun age_at_most :: "int \<Rightarrow> number \<Rightarrow> bool" where
  "age_at_most age (Num t) \<longleftrightarrow> of_int age \<le> double t * 1000"
| "age_at_most age PlusInfinity \<longleftrightarrow> True"
| "age_at_most age MinusInfinity \<longleftrightarrow> False"
| "age_at_most age NaN \<longleftrightarrow> False"

subsection \<open>Data\<close>

type_synonym key = string

datatype EventTypeEnum = Refetch

record 'd entry =
  insertedAt :: int
  data :: 'd

record opts =
  timeoutInSeconds :: "number option"

record ('d, 'l, 'x) world =
  cachemap :: "key \<rightharpoonup> 'd entry"
  listeners :: "key \<rightharpoonup> 'l list"
  clock :: int
  outside :: 'x

text \<open>How a promise settles.\<close>

datatype 'a settled = Fulfilled 'a | Rejected

text \<open>
  \<open>Error m\<close> is \<^verbatim>\<open>new Error(m)\<close>; \<open>TypeError\<close> is what JavaScript throws when
  \<^verbatim>\<open>undefined\<close> is called or dereferenced.
\<close>

datatype error = Error string | TypeError

text \<open>
  What a call of \<^verbatim>\<open>fetch\<close> has come to: the promise fulfilled with a value, rejected
  with an error, or still unsettled when the bound on the number of nested calls that the
  model follows was reached.
\<close>

datatype 'd outcome = Returned 'd | Threw error | Pending

text \<open>
  \<^verbatim>\<open>await fetchFn()\<close> in line 66 is a suspension point: between the call of the fetch
  function and the moment \<^verbatim>\<open>fetch\<close> goes on, the fetch function does its work and any
  other task may run, time passes, and the retry in line 70 reads the store again
  (line 57). In the model \<open>fetchFn s\<close> is how the promise settles and the world in which
  \<^verbatim>\<open>fetch\<close> goes on, when the invocation started in the world \<open>s\<close>.
\<close>

type_synonym ('d, 'l, 'x) fetchFn =
  "('d, 'l, 'x) world \<Rightarrow> 'd settled \<times> ('d, 'l, 'x) world"

text \<open>
  A fetch function as transport code: one invocation, started in a state of the outside,
  settles after some milliseconds and leaves the outside in a new state. \<open>alone\<close> is such
  an invocation awaited while nothing else runs: only the clock and the outside change.
\<close>

type_synonym ('d, 'x) operation = "'x \<Rightarrow> 'd settled \<times> nat \<times> 'x"

definition alone :: "('d, 'x) operation \<Rightarrow> ('d, 'l, 'x) fetchFn" where
  "alone operation s =
     (case operation (outside s) of
        (r, elapsed, x) \<Rightarrow> (r, s\<lparr>clock := clock s + int elapsed, outside := x\<rparr>))"

text \<open>
  A listener \<^verbatim>\<open>(e: EventTypeEnum) => Promise<void>\<close> is subscriber code that may call back
  into the provider. Listeners are kept as values of a type \<open>'l\<close>; what invoking one
  does, up to the moment its promise settles, is given by an interpretation.
\<close>

type_synonym ('d, 'l, 'x) listener_run =
  "'l \<Rightarrow> EventTypeEnum \<Rightarrow> ('d, 'l, 'x) world \<Rightarrow> unit settled \<times> ('d, 'l, 'x) world"

text \<open>One entry of the log of listener invocations made by \<^verbatim>\<open>invalidateCache\<close>.\<close>

datatype 'l notice = Invoked 'l EventTypeEnum | Completed 'l

subsection \<open>The provider\<close>

definition generateQueryProvider :: "int \<Rightarrow> 'x \<Rightarrow> ('d, 'l, 'x) world" where
  "generateQueryProvider now x =
     \<lparr>cachemap = Map.empty, listeners = Map.empty, clock = now, outside = x\<rparr>"

definition get :: "('d, 'l, 'x) world \<Rightarrow> key \<Rightarrow> 'd entry option" where
  "get s queryKey = cachemap s queryKey"

definition set_entry :: "('d, 'l, 'x) world \<Rightarrow> key \<Rightarrow> 'd \<Rightarrow> ('d, 'l, 'x) world" where
  "set_entry s queryKey d =
     s\<lparr>cachemap := (cachemap s)(queryKey \<mapsto> \<lparr>insertedAt = clock s, data = d\<rparr>)\<rparr>"

text \<open>
  \<^verbatim>\<open>listenerArray!.push(cb)\<close>: the array is there after the line before, so the \<open>None\<close>
  branch is never taken.
\<close>

definition attachListener :: "('d, 'l, 'x) world \<Rightarrow> key \<Rightarrow> 'l \<Rightarrow> ('d, 'l, 'x) world" where
  "attachListener s queryKey cb =
     (let s1 = (if listeners s queryKey = None
                then s\<lparr>listeners := (listeners s)(queryKey \<mapsto> [])\<rparr> else s)
      in case listeners s1 queryKey of
           None \<Rightarrow> s1
         | Some listenerArray \<Rightarrow>
             s1\<lparr>listeners := (listeners s1)(queryKey \<mapsto> listenerArray @ [cb])\<rparr>)"

text \<open>\<^verbatim>\<open>map.delete(queryKey)\<close>\<close>

definition delete_entry :: "('d, 'l, 'x) world \<Rightarrow> key \<Rightarrow> ('d, 'l, 'x) world" where
  "delete_entry s queryKey = s\<lparr>cachemap := (cachemap s)(queryKey := None)\<rparr>"

text \<open>
  The callback given to \<^verbatim>\<open>.then\<close> in \<^verbatim>\<open>invalidateCache\<close>. \<^verbatim>\<open>forEach\<close> calls the
  listeners of \<open>rest\<close> in order and drops the promises they return. The log of the
  invocations is exact. For the world the model lets each listener run to its end before
  the next is called; in the code they are all started and their later parts interleave,
  which the model does not follow.
\<close>

definition thenCallback ::
  "('d, 'l, 'x) listener_run \<Rightarrow> key \<Rightarrow> 'l list \<Rightarrow> ('d, 'l, 'x) world
     \<Rightarrow> ('d, 'l, 'x) world \<times> 'l notice list" where
  "thenCallback call queryKey rest s =
     (if cachemap s queryKey \<noteq> None
      then foldl (\<lambda>(w, tr) cb. (snd (call cb Refetch w), tr @ [Invoked cb Refetch])) (s, []) rest
      else (s, []))"

text \<open>
  \<^verbatim>\<open>if (listenerArray)\<close> is true of every array, the empty one too; there
  \<^verbatim>\<open>primary\<close> is \<^verbatim>\<open>undefined\<close> and calling it throws. A rejected primary promise has no
  handler: the \<^verbatim>\<open>.then\<close> callback does not run. The destructuring copies the array, so
  \<open>rest\<close> is the array as it was when \<^verbatim>\<open>invalidateCache\<close> was called.

  The method itself returns as soon as \<^verbatim>\<open>primary\<close> has been called. The model follows the
  promise to its end: the result is the error thrown, if any, the world at that end, and
  the log of the listener invocations made.
\<close>

definition invalidateCache ::
  "('d, 'l, 'x) listener_run \<Rightarrow> ('d, 'l, 'x) world \<Rightarrow> key
     \<Rightarrow> error option \<times> ('d, 'l, 'x) world \<times> 'l notice list" where
  "invalidateCache call s queryKey =
     (let s1 = delete_entry s queryKey;
          listenerArray = listeners s1 queryKey
      in case listenerArray of
           None \<Rightarrow> (None, s1, [])
         | Some [] \<Rightarrow> (Some TypeError, s1, [])
         | Some (primary # rest) \<Rightarrow>
             (case call primary Refetch s1 of
                (Fulfilled u, s2) \<Rightarrow>
                  (case thenCallback call queryKey rest s2 of
                     (s3, tr) \<Rightarrow> (None, s3, Invoked primary Refetch # Completed primary # tr))
              | (Rejected, s2) \<Rightarrow> (None, s2, [Invoked primary Refetch])))"

text \<open>\<^verbatim>\<open>opts?.timeoutInSeconds ?? 300\<close>\<close>

definition timeout :: "opts option \<Rightarrow> number" where
  "timeout opts =
     (case opts of
        None \<Rightarrow> Num 300
      | Some ob \<Rightarrow> (case timeoutInSeconds ob of None \<Rightarrow> Num 300 | Some t \<Rightarrow> t))"

text \<open>
  The condition of line 59:
  \<^verbatim>\<open>cache == undefined || (Date.now() - cache.insertedAt) / 1000 > (opts?.timeoutInSeconds ?? 300)\<close>.
\<close>

definition needsFetch :: "'d entry option \<Rightarrow> opts option \<Rightarrow> int \<Rightarrow> bool" where
  "needsFetch cache opts now =
     (case cache of
        None \<Rightarrow> True
      | Some c \<Rightarrow> exceeds (double (of_int (now - insertedAt c) / 1000)) (timeout opts))"

definition exhausted :: "key \<Rightarrow> error" where
  "exhausted queryKey =
     Error (''Was not able to fetch query-key: '' @ queryKey @ ''. Not retrying'')"

text \<open>
  \<^verbatim>\<open>tries++\<close> as an expression: its value is the old \<^verbatim>\<open>tries\<close>, and the variable holds
  one more afterwards. The pair is (value of the expression, new value of the variable).
\<close>

definition post_increment :: "int \<Rightarrow> int \<times> int" where
  "post_increment tries = (tries, tries + 1)"

text \<open>
  \<^verbatim>\<open>fetch\<close> calls itself from its \<^verbatim>\<open>catch\<close> block, and nothing in the source bounds how
  often. The first argument of the model bounds the number of nested calls that are
  followed; when it is used up the promise is still \<open>Pending\<close>. The result is the
  outcome, the world at that moment, and the number of times \<^verbatim>\<open>fetchFn\<close> was invoked.
  An omitted \<^verbatim>\<open>tries\<close> is \<open>0\<close>. In the last line \<^verbatim>\<open>cache.data\<close> on \<^verbatim>\<open>undefined\<close> would
  throw; \<open>needsFetch\<close> excludes it.
\<close>

fun fetch ::
  "nat \<Rightarrow> key \<Rightarrow> ('d, 'l, 'x) fetchFn \<Rightarrow> opts option \<Rightarrow> int \<Rightarrow> ('d, 'l, 'x) world
     \<Rightarrow> 'd outcome \<times> ('d, 'l, 'x) world \<times> nat" where
  "fetch 0 queryKey fetchFn opts tries s = (Pending, s, 0)"
| "fetch (Suc fuel) queryKey fetchFn opts tries s =
     (let cache = get s queryKey in
      if needsFetch cache opts (clock s) then
        if tries \<ge> 3 then (Threw (exhausted queryKey), s, 0)
        else
          (case fetchFn s of
             (Fulfilled d, s') \<Rightarrow> (Returned d, set_entry s' queryKey d, 1)
           | (Rejected, s') \<Rightarrow>
               (case fetch fuel queryKey fetchFn opts (fst (post_increment tries)) s' of
                  (r, s'', n) \<Rightarrow> (r, s'', Suc n)))
      else
        (case cache of
           Some c \<Rightarrow> (Returned (data c), s, 0)
         | None \<Rightarrow> (Threw TypeError, s, 0)))"

text \<open>
  Two values of \<^verbatim>\<open>opts\<close> agree on a call when every freshness test that the call and its
  retries make comes out the same under both.
\<close>

fun tests_agree ::
  "nat \<Rightarrow> key \<Rightarrow> ('d, 'l, 'x) fetchFn \<Rightarrow> opts option \<Rightarrow> opts option \<Rightarrow> int
     \<Rightarrow> ('d, 'l, 'x) world \<Rightarrow> bool" where
  "tests_agree 0 queryKey fetchFn opts1 opts2 tries s = True"
| "tests_agree (Suc fuel) queryKey fetchFn opts1 opts2 tries s =
     (needsFetch (get s queryKey) opts1 (clock s) = needsFetch (get s queryKey) opts2 (clock s) \<and>
      (if needsFetch (get s queryKey) opts1 (clock s) \<and> tries < 3
       then (case fetchFn s of
               (Fulfilled d, s') \<Rightarrow> True
             | (Rejected, s') \<Rightarrow> tests_agree fuel queryKey fetchFn opts1 opts2 tries s')
       else True))"

subsection \<open>Sequences of method calls\<close>

text \<open>
  The provider is used through its methods only: the two maps are local to
  \<^verbatim>\<open>generateQueryProvider\<close>. A history of the provider is a list of method calls, run one
  after the other from the world the provider was created in; each \<^verbatim>\<open>fetch\<close> of a history
  runs to its end before the next call, so its fetch function is awaited \<open>alone\<close>.
\<close>

datatype ('d, 'l, 'x) method_call =
    DoGet key
  | DoSet key 'd
  | DoAttachListener key 'l
  | DoInvalidateCache key
  | DoFetch key "('d, 'x) operation" "opts option" int

fun perform ::
  "nat \<Rightarrow> ('d, 'l, 'x) listener_run \<Rightarrow> ('d, 'l, 'x) world \<Rightarrow> ('d, 'l, 'x) method_call
     \<Rightarrow> ('d, 'l, 'x) world" where
  "perform fuel call s (DoGet queryKey) = s"
| "perform fuel call s (DoSet queryKey d) = set_entry s queryKey d"
| "perform fuel call s (DoAttachListener queryKey cb) = attachListener s queryKey cb"
| "perform fuel call s (DoInvalidateCache queryKey) = fst (snd (invalidateCache call s queryKey))"
| "perform fuel call s (DoFetch queryKey operation opts tries) =
     fst (snd (fetch fuel queryKey (alone operation) opts tries s))"

definition perform_all ::
  "nat \<Rightarrow> ('d, 'l, 'x) listener_run \<Rightarrow> ('d, 'l, 'x) world \<Rightarrow> ('d, 'l, 'x) method_call list
     \<Rightarrow> ('d, 'l, 'x) world" where
  "perform_all fuel call s calls = foldl (perform fuel call) s calls"

text \<open>
  A method call made in world \<open>s\<close> writes an entry for \<open>k\<close> when it is \<^verbatim>\<open>set(k, ...)\<close>
  or a \<^verbatim>\<open>fetch\<close> for \<open>k\<close> that returns a value.
\<close>

fun writes_entry ::
  "nat \<Rightarrow> key \<Rightarrow> ('d, 'l, 'x) world \<Rightarrow> ('d, 'l, 'x) method_call \<Rightarrow> bool" where
  "writes_entry fuel k s (DoSet queryKey d) = (queryKey = k)"
| "writes_entry fuel k s (DoFetch queryKey operation opts tries) =
     (queryKey = k \<and>
      (case fst (fetch fuel queryKey (alone operation) opts tries s) of
         Returned d \<Rightarrow> True | Threw e \<Rightarrow> False | Pending \<Rightarrow> False))"
| "writes_entry fuel k s (DoGet queryKey) = False"
| "writes_entry fuel k s (DoAttachListener queryKey cb) = False"
| "writes_entry fuel k s (DoInvalidateCache queryKey) = False"

fun no_write ::
  "nat \<Rightarrow> ('d, 'l, 'x) listener_run \<Rightarrow> key \<Rightarrow> ('d, 'l, 'x) world
     \<Rightarrow> ('d, 'l, 'x) method_call list \<Rightarrow> bool" where
  "no_write fuel call k s [] = True"
| "no_write fuel call k s (c # calls) =
     (\<not> writes_entry fuel k s c \<and> no_write fuel call k (perform fuel call s c) calls)"

section \<open>Properties\<close>

subsection \<open>Rounding to a double\<close>

lemma round_half_even_of_int [simp]: "round_half_even (of_int m) = m"
  by (simp add: round_half_even_def)

lemma round_half_even_numeral [simp]: "round_half_even (numeral n) = numeral n"
  using round_half_even_of_int [of "numeral n"] by simp

lemma round_half_even_range: "\<lfloor>y\<rfloor> \<le> round_half_even y \<and> round_half_even y \<le> \<lfloor>y\<rfloor> + 1"
  by (simp add: round_half_even_def Let_def)

lemma round_half_even_mono:
  assumes "y \<le> y'"
  shows "round_half_even y \<le> round_half_even y'"
proof (cases "\<lfloor>y\<rfloor> = \<lfloor>y'\<rfloor>")
  case True
  with assms show ?thesis
    by (auto simp: round_half_even_def Let_def)
next
  case False
  with assms have "\<lfloor>y\<rfloor> + 1 \<le> \<lfloor>y'\<rfloor>"
    using floor_mono [of y y'] by linarith
  with round_half_even_range [of y] round_half_even_range [of y'] show ?thesis
    by linarith
qed

lemma pow2_less_iff: "(2::rat) powi m < 2 powi n \<longleftrightarrow> m < n"
proof
  assume less: "(2::rat) powi m < 2 powi n"
  show "m < n"
  proof (rule ccontr)
    assume "\<not> m < n"
    then have "n \<le> m" by simp
    then have "(2::rat) powi n \<le> 2 powi m" by (intro power_int_increasing) simp_all
    with less show False by simp
  qed
next
  assume "m < n"
  then show "(2::rat) powi m < 2 powi n" by (intro power_int_strict_increasing) simp_all
qed

lemma pow2_le_iff: "(2::rat) powi m \<le> 2 powi n \<longleftrightarrow> m \<le> n"
  using pow2_less_iff [of n m] by (auto simp: not_less [symmetric])

lemma pow2_quotient: "(2::rat) powi m / 2 powi n = 2 powi (m - n)"
  by (rule power_int_diff [symmetric]) simp

lemma bitlen_bounds_rat:
  assumes "0 < p"
  shows "2 powi (bitlen p - 1) \<le> (of_int p :: rat)" and "(of_int p :: rat) < 2 powi (bitlen p)"
proof -
  from assms have b: "1 \<le> bitlen p"
    using bitlen_eq_zero_iff [of p] bitlen_nonneg [of p] by linarith
  from bitlen_bounds [OF assms]
  have "(2::int) ^ nat (bitlen p - 1) \<le> p" and "p < 2 ^ nat (bitlen p)" by simp_all
  then have "(of_int ((2::int) ^ nat (bitlen p - 1)) :: rat) \<le> of_int p"
    and "(of_int p :: rat) < of_int (2 ^ nat (bitlen p))"
    by (simp_all only: of_int_le_iff of_int_less_iff)
  with b show "2 powi (bitlen p - 1) \<le> (of_int p :: rat)" and "(of_int p :: rat) < 2 powi (bitlen p)"
    by (simp_all add: power_int_def)
qed

lemma expo_bounds:
  assumes "0 < x"
  shows "2 powi (expo x) \<le> x" and "x < 2 powi (expo x + 1)"
proof -
  obtain p q where pq: "quotient_of x = (p, q)" by (cases "quotient_of x")
  then have q: "0 < q" and x: "x = of_int p / of_int q"
    by (simp_all add: quotient_of_denom_pos quotient_of_div)
  with assms have p: "0 < p"
    by (simp add: zero_less_divide_iff)
  let ?d = "bitlen p - bitlen q"
  note bp = bitlen_bounds_rat [OF p] and bq = bitlen_bounds_rat [OF q]
  have qpos: "(0::rat) < of_int q" using q by simp
  have up: "x < 2 powi (?d + 1)"
  proof -
    have "of_int p * (2::rat) powi (bitlen q - 1) < 2 powi (bitlen p) * of_int q"
      using bp(2) bq(1) p q
      by (intro mult_less_le_imp_less) simp_all
    then have "x * 2 powi (bitlen q - 1) < (2::rat) powi (bitlen p)"
      using qpos by (simp add: x field_simps)
    then have "x < (2::rat) powi (bitlen p) / 2 powi (bitlen q - 1)"
      by (simp add: field_simps)
    also have "\<dots> = 2 powi (bitlen p - (bitlen q - 1))"
      by (rule pow2_quotient)
    also have "bitlen p - (bitlen q - 1) = ?d + 1" by simp
    finally show ?thesis .
  qed
  have lo: "2 powi (?d - 1) < x"
  proof -
    have "(2::rat) powi (bitlen p - 1) * of_int q < of_int p * 2 powi (bitlen q)"
      using bp(1) bq(2) p q
      by (intro mult_le_less_imp_less) simp_all
    then have "(2::rat) powi (bitlen p - 1) / 2 powi (bitlen q) < x"
      using qpos by (simp add: x field_simps)
    moreover have "(2::rat) powi (bitlen p - 1) / 2 powi (bitlen q) = 2 powi (bitlen p - 1 - bitlen q)"
      by (rule pow2_quotient)
    moreover have "bitlen p - 1 - bitlen q = ?d - 1" by simp
    ultimately show ?thesis by simp
  qed
  show "2 powi (expo x) \<le> x"
    using lo by (auto simp: expo_def pq Let_def)
  show "x < 2 powi (expo x + 1)"
    using up by (auto simp: expo_def pq Let_def)
qed

lemma expo_mono:
  assumes "0 < x" and "x \<le> y"
  shows "expo x \<le> expo y"
proof -
  from assms have y: "0 < y" by simp
  have "(2::rat) powi (expo x) < 2 powi (expo y + 1)"
    using expo_bounds(1) [OF assms(1)] expo_bounds(2) [OF y] assms(2) by linarith
  then show ?thesis by (simp only: pow2_less_iff)
qed

lemma pow2_52_times: "(2::rat) ^ 52 * 2 powi (e - 52) = 2 powi e"
proof -
  have "(2::rat) ^ 52 * 2 powi (e - 52) = 2 powi 52 * 2 powi (e - 52)" by simp
  also have "\<dots> = 2 powi (52 + (e - 52))" by (rule power_int_add [symmetric]) simp
  finally show ?thesis by simp
qed

lemma pow2_53_times: "(2::rat) ^ 53 * 2 powi (e - 52) = 2 powi (e + 1)"
proof -
  have "(2::rat) ^ 53 * 2 powi (e - 52) = 2 powi 53 * 2 powi (e - 52)" by simp
  also have "\<dots> = 2 powi (53 + (e - 52))" by (rule power_int_add [symmetric]) simp
  also have "53 + (e - 52) = e + 1" by simp
  finally show ?thesis .
qed

lemma round53_scaled:
  assumes "0 < x"
  shows "2 ^ 52 \<le> x / 2 powi (expo x - 52)" and "x / 2 powi (expo x - 52) < 2 ^ 53"
proof -
  note b = expo_bounds [OF assms]
  have q: "(0::rat) < 2 powi (expo x - 52)" by simp
  show "2 ^ 52 \<le> x / 2 powi (expo x - 52)"
    using b(1) q pow2_52_times [of "expo x"] by (simp add: pos_le_divide_eq)
  show "x / 2 powi (expo x - 52) < 2 ^ 53"
    using b(2) q pow2_53_times [of "expo x"] by (simp add: pos_divide_less_eq)
qed

lemma round53_mantissa:
  assumes "0 < x"
  shows "2 ^ 52 \<le> round_half_even (x / 2 powi (expo x - 52))"
    and "round_half_even (x / 2 powi (expo x - 52)) \<le> 2 ^ 53"
proof -
  note s = round53_scaled [OF assms]
  have "round_half_even (of_int (2 ^ 52)) \<le> round_half_even (x / 2 powi (expo x - 52))"
    by (rule round_half_even_mono) (use s(1) in simp)
  then show "2 ^ 52 \<le> round_half_even (x / 2 powi (expo x - 52))" by simp
  have "round_half_even (x / 2 powi (expo x - 52)) \<le> round_half_even (of_int (2 ^ 53))"
    by (rule round_half_even_mono) (use s(2) in simp)
  then show "round_half_even (x / 2 powi (expo x - 52)) \<le> 2 ^ 53" by simp
qed

lemma round53_bounds:
  assumes "0 < x"
  shows "2 powi (expo x) \<le> round53 x" and "round53 x \<le> 2 powi (expo x + 1)"
proof -
  let ?q = "(2::rat) powi (expo x - 52)"
  let ?k = "round_half_even (x / ?q)"
  note m = round53_mantissa [OF assms]
  have q: "0 < ?q" by simp
  have "(of_int (2 ^ 52) :: rat) \<le> of_int ?k" using m(1) by (simp only: of_int_le_iff)
  then have "(2::rat) ^ 52 * ?q \<le> of_int ?k * ?q" using q by simp
  with pow2_52_times [of "expo x"] show "2 powi (expo x) \<le> round53 x"
    by (simp add: round53_def Let_def)
  have "(of_int ?k :: rat) \<le> of_int (2 ^ 53)" using m(2) by (simp only: of_int_le_iff)
  then have "of_int ?k * ?q \<le> (2::rat) ^ 53 * ?q" using q by simp
  with pow2_53_times [of "expo x"] show "round53 x \<le> 2 powi (expo x + 1)"
    by (simp add: round53_def Let_def)
qed

lemma round53_pos: "0 < x \<Longrightarrow> 0 < round53 x"
  using round53_bounds(1) [of x] zero_less_power_int [of "2::rat" "expo x"] by linarith

lemma round53_mono:
  assumes "0 < x" and "x \<le> y"
  shows "round53 x \<le> round53 y"
proof (cases "expo x = expo y")
  case True
  have "x / 2 powi (expo y - 52) \<le> y / 2 powi (expo y - 52)"
    using assms(2) by (simp add: divide_right_mono)
  then have "round_half_even (x / 2 powi (expo y - 52)) \<le> round_half_even (y / 2 powi (expo y - 52))"
    by (rule round_half_even_mono)
  then have "(of_int (round_half_even (x / 2 powi (expo y - 52))) :: rat)
      \<le> of_int (round_half_even (y / 2 powi (expo y - 52)))"
    by (simp only: of_int_le_iff)
  then show ?thesis
    by (simp add: round53_def Let_def True)
next
  case False
  from assms have y: "0 < y" by simp
  from False expo_mono [OF assms] have "expo x + 1 \<le> expo y" by simp
  then have "(2::rat) powi (expo x + 1) \<le> 2 powi (expo y)" by (simp only: pow2_le_iff)
  with round53_bounds(2) [OF assms(1)] round53_bounds(1) [OF y] show ?thesis by linarith
qed

text \<open>Rounding keeps the order.\<close>

lemma double_mono:
  assumes "x \<le> y"
  shows "double x \<le> double y"
proof -
  consider "0 < x" | "x = 0" | "x < 0" "y < 0" | "x < 0" "0 \<le> y" by linarith
  then show ?thesis
  proof cases
    case 1
    with assms round53_mono [of x y] show ?thesis by (simp add: double_def)
  next
    case 2
    with assms round53_pos [of y] show ?thesis by (auto simp: double_def)
  next
    case 3
    with assms round53_mono [of "- y" "- x"] show ?thesis by (simp add: double_def)
  next
    case 4
    with round53_pos [of "- x"] round53_pos [of y] show ?thesis
      by (auto simp: double_def)
  qed
qed

text \<open>A number with a mantissa of at most 53 bits is a double: rounding leaves it as it is.\<close>

lemma round53_exact:
  assumes "0 < m" and "m < 2 ^ 53"
  shows "round53 (of_int m * 2 powi j) = of_int m * 2 powi j"
proof -
  let ?x = "of_int m * (2::rat) powi j"
  have x: "0 < ?x" using assms(1) by simp
  have "?x < 2 ^ 53 * 2 powi j"
    using assms(2) by (simp add: of_int_less_iff [of m "2 ^ 53", where ?'a = rat, simplified])
  also have "\<dots> = 2 powi 53 * 2 powi j" by simp
  also have "\<dots> = 2 powi (53 + j)" by (rule power_int_add [symmetric]) simp
  finally have "(2::rat) powi (expo ?x) < 2 powi (53 + j)"
    using expo_bounds(1) [OF x] by linarith
  then have e: "expo ?x < 53 + j" by (simp only: pow2_less_iff)
  define n where "n = nat (j - (expo ?x - 52))"
  have n: "j - (expo ?x - 52) = int n" using e by (simp add: n_def)
  have "(2::rat) powi j / 2 powi (expo ?x - 52) = 2 powi (j - (expo ?x - 52))"
    by (rule pow2_quotient)
  also have "\<dots> = 2 ^ n" by (simp only: n power_int_of_nat)
  finally have "(2::rat) powi j / 2 powi (expo ?x - 52) = 2 ^ n" .
  then have "of_int m * ((2::rat) powi j / 2 powi (expo ?x - 52)) = of_int m * 2 ^ n"
    by (simp only:)
  then have "?x / 2 powi (expo ?x - 52) = of_int (m * 2 ^ n)"
    by (simp only: times_divide_eq_right of_int_mult of_int_power of_int_numeral)
  then have "round_half_even (?x / 2 powi (expo ?x - 52)) = m * 2 ^ n"
    by (simp only: round_half_even_of_int)
  then have "round53 ?x = of_int (m * 2 ^ n) * 2 powi (expo ?x - 52)"
    by (simp add: round53_def Let_def)
  also have "\<dots> = of_int m * (2 powi (j - (expo ?x - 52)) * 2 powi (expo ?x - 52))"
    by (simp add: n)
  also have "2 powi (j - (expo ?x - 52)) * (2::rat) powi (expo ?x - 52) = 2 powi (j - (expo ?x - 52) + (expo ?x - 52))"
    by (rule power_int_add [symmetric]) simp
  finally show ?thesis by simp
qed

lemma round53_idem:
  assumes "0 < x"
  shows "round53 (round53 x) = round53 x"
proof -
  let ?k = "round_half_even (x / 2 powi (expo x - 52))"
  note m = round53_mantissa [OF assms]
  show ?thesis
  proof (cases "?k = 2 ^ 53")
    case True
    have "(2::rat) powi (expo x - 52 + 1) = 2 powi (expo x - 52) * 2"
      by (rule power_int_add_1) simp
    then have "round53 x = of_int (2 ^ 52) * 2 powi (expo x - 52 + 1)"
      by (simp add: round53_def Let_def True)
    moreover have "round53 (of_int (2 ^ 52) * 2 powi (expo x - 52 + 1)) = of_int (2 ^ 52) * 2 powi (expo x - 52 + 1)"
      by (rule round53_exact) simp_all
    ultimately show ?thesis by simp
  next
    case False
    with m have "0 < ?k" "?k < 2 ^ 53" by simp_all
    from round53_exact [OF this, of "expo x - 52"] show ?thesis
      by (simp add: round53_def Let_def)
  qed
qed

lemma double_idem [simp]: "double (double x) = double x"
proof -
  consider "0 < x" | "x = 0" | "x < 0" by linarith
  then show ?thesis
  proof cases
    case 1
    with round53_pos [of x] round53_idem [of x] show ?thesis by (simp add: double_def)
  next
    case 2
    then show ?thesis by (simp add: double_def)
  next
    case 3
    with round53_pos [of "- x"] round53_idem [of "- x"] show ?thesis
      by (auto simp: double_def)
  qed
qed

lemma double_of_int:
  assumes "\<bar>n\<bar> < 2 ^ 53"
  shows "double (of_int n) = of_int n"
proof -
  consider "0 < n" | "n = 0" | "n < 0" by linarith
  then show ?thesis
  proof cases
    case 1
    with assms round53_exact [of n 0] show ?thesis by (simp add: double_def)
  next
    case 2
    then show ?thesis by (simp add: double_def)
  next
    case 3
    with assms round53_exact [of "- n" 0] show ?thesis by (simp add: double_def)
  qed
qed

lemma double_numeral: "(numeral n :: int) < 2 ^ 53 \<Longrightarrow> double (numeral n) = numeral n"
  using double_of_int [of "numeral n"] by simp

subsection \<open>The freshness test\<close>

lemma needsFetch_None [simp]: "needsFetch None opts now"
  by (simp add: needsFetch_def)

lemma exceeds_mono: "exceeds q t \<Longrightarrow> q \<le> q' \<Longrightarrow> exceeds q' t"
  by (cases t) simp_all

text \<open>
  An age of at most \<open>ttl * 1000\<close> milliseconds is never past its time: the rounded
  quotient cannot pass the double \<open>ttl\<close>.
\<close>

lemma age_at_most_not_exceeds:
  assumes "age_at_most age t"
  shows "\<not> exceeds (double (of_int age / 1000)) t"
proof (cases t)
  case (Num x)
  with assms have "of_int age / 1000 \<le> double x" by simp
  from double_mono [OF this] have "double (of_int age / 1000) \<le> double x" by simp
  with Num show ?thesis by simp
qed (use assms in simp_all)

lemma age_at_most_fresh:
  "age_at_most (now - insertedAt c) (timeout opts) \<Longrightarrow> \<not> needsFetch (Some c) opts now"
  using age_at_most_not_exceeds [of "now - insertedAt c" "timeout opts"]
  by (simp add: needsFetch_def)

text \<open>
  The converse fails. The double for \<^verbatim>\<open>1.001\<close> is a little below 1001/1000, so an age of
  1001 milliseconds is more than \<open>ttl * 1000\<close>; the quotient 1001/1000 rounds to that same
  double and does not exceed it.
\<close>

lemma rounded_quotient_not_exact:
  "\<not> age_at_most 1001 (Num (1001 / 1000)) \<and>
   \<not> exceeds (double (of_int 1001 / 1000)) (Num (1001 / 1000))"
  by code_simp

lemma age_below_at_most: "age_below age t \<Longrightarrow> age_at_most age t"
  by (cases t) simp_all

lemma needsFetch_Some:
  "needsFetch (Some c) opts now \<longleftrightarrow>
     exceeds (double (of_int (now - insertedAt c) / 1000)) (timeout opts)"
  by (simp add: needsFetch_def)

text \<open>An entry that is past its time stays so: the clock does not run backwards.\<close>

lemma needsFetch_later:
  assumes "needsFetch cache opts now" and "now \<le> now'"
  shows "needsFetch cache opts now'"
proof (cases cache)
  case None
  then show ?thesis by simp
next
  case (Some c)
  have "(of_int (now - insertedAt c) :: rat) / 1000 \<le> of_int (now' - insertedAt c) / 1000"
    using assms(2) by simp
  from double_mono [OF this] assms(1) Some show ?thesis
    by (auto simp: needsFetch_Some intro: exceeds_mono)
qed

subsection \<open>What a fetch function awaited alone leaves as it is\<close>

lemma get_alone [simp]: "get (snd (alone operation s)) k = get s k"
  by (simp add: alone_def get_def split: prod.splits)

lemma listeners_alone [simp]: "listeners (snd (alone operation s)) = listeners s"
  by (simp add: alone_def split: prod.splits)

lemma clock_alone: "clock s \<le> clock (snd (alone operation s))"
  by (simp add: alone_def split: prod.splits)

lemma needsFetch_alone:
  "needsFetch (get s k) opts (clock s) \<Longrightarrow>
   needsFetch (get (snd (alone operation s)) k) opts (clock (snd (alone operation s)))"
  using needsFetch_later [OF _ clock_alone] by simp

subsection \<open>What the store methods leave as it is\<close>

lemma listeners_set_entry [simp]: "listeners (set_entry s k d) = listeners s"
  by (simp add: set_entry_def)

lemma listeners_delete_entry [simp]: "listeners (delete_entry s k) = listeners s"
  by (simp add: delete_entry_def)

lemma attachListener_appends:
  "attachListener s k cb =
     s\<lparr>listeners := (listeners s)(k \<mapsto> (case listeners s k of None \<Rightarrow> [] | Some arr \<Rightarrow> arr) @ [cb])\<rparr>"
  by (simp add: attachListener_def split: option.splits)

lemma get_delete_entry: "get (delete_entry s k') k = (if k = k' then None else get s k)"
  by (simp add: get_def delete_entry_def)

lemma get_set_entry_other: "k \<noteq> k' \<Longrightarrow> get (set_entry s k' d) k = get s k"
  by (simp add: get_def set_entry_def)

lemma get_attachListener [simp]: "get (attachListener s k' cb) k = get s k"
  by (simp add: attachListener_appends get_def)

subsection \<open>What \<^verbatim>\<open>fetch\<close> leaves as it is\<close>

text \<open>
  As long as \<^verbatim>\<open>fetch\<close> has not returned a value, the world is the one it was called in,
  passed through the awaited invocations: the code of \<^verbatim>\<open>fetch\<close> has written nothing.
\<close>

lemma fetch_unreturned_world:
  "\<forall>d. fst (fetch fuel k fetchFn opts tries s) \<noteq> Returned d \<Longrightarrow>
   fst (snd (fetch fuel k fetchFn opts tries s)) =
     ((\<lambda>w. snd (fetchFn w)) ^^ snd (snd (fetch fuel k fetchFn opts tries s))) s"
proof (induction fuel arbitrary: s)
  case 0
  then show ?case by simp
next
  case (Suc fuel)
  obtain r s' where aw: "fetchFn s = (r, s')"
    by (cases "fetchFn s")
  obtain r' s'' n where rec: "fetch fuel k fetchFn opts tries s' = (r', s'', n)"
    by (cases "fetch fuel k fetchFn opts tries s'")
  show ?case
  proof (cases "needsFetch (get s k) opts (clock s) \<and> tries < 3 \<and> r = Rejected")
    case True
    with Suc.prems aw rec have "\<forall>d. fst (fetch fuel k fetchFn opts tries s') \<noteq> Returned d"
      by (simp add: post_increment_def)
    from Suc.IH [OF this] rec have "s'' = ((\<lambda>w. snd (fetchFn w)) ^^ n) s'" by simp
    moreover have "((\<lambda>w. snd (fetchFn w)) ^^ Suc n) s = ((\<lambda>w. snd (fetchFn w)) ^^ n) s'"
    proof -
      define f where "f = (\<lambda>w. snd (fetchFn w))"
      have "f s = s'" using aw by (simp add: f_def)
      then have "(f ^^ Suc n) s = (f ^^ n) s'" by (simp add: funpow_swap1)
      then show ?thesis by (simp only: f_def)
    qed
    ultimately show ?thesis
      using True aw rec by (simp add: post_increment_def del: funpow.simps)
  next
    case False
    with Suc.prems aw show ?thesis
      by (cases r) (auto simp: Let_def split: option.splits)
  qed
qed

lemma funpow_keeps:
  assumes "\<And>w. P (f w) = P w"
  shows "P ((f ^^ n) s) = P s"
  using assms by (induction n) simp_all

lemma listeners_fetch_alone [simp]:
  "listeners (fst (snd (fetch fuel k (alone operation) opts tries s))) = listeners s"
proof (induction fuel arbitrary: s)
  case 0
  then show ?case by simp
next
  case (Suc fuel)
  obtain r s' where aw: "alone operation s = (r, s')"
    by (cases "alone operation s")
  have l: "listeners s' = listeners s"
    using listeners_alone [of operation s] aw by simp
  obtain r' s'' n where rec: "fetch fuel k (alone operation) opts tries s' = (r', s'', n)"
    by (cases "fetch fuel k (alone operation) opts tries s'")
  have "listeners s'' = listeners s"
    using Suc.IH [of s'] rec l by simp
  with aw rec l show ?case
    by (auto simp: Let_def post_increment_def split: settled.splits option.splits)
qed

lemma fetch_alone_keeps_other_keys:
  "k \<noteq> k' \<Longrightarrow> get (fst (snd (fetch fuel k' (alone operation) opts tries s))) k = get s k"
proof (induction fuel arbitrary: s)
  case 0
  then show ?case by simp
next
  case (Suc fuel)
  obtain r s' where aw: "alone operation s = (r, s')"
    by (cases "alone operation s")
  have g: "get s' k = get s k"
    using get_alone [of operation s k] aw by simp
  obtain r' s'' n where rec: "fetch fuel k' (alone operation) opts tries s' = (r', s'', n)"
    by (cases "fetch fuel k' (alone operation) opts tries s'")
  have "get s'' k = get s k"
    using Suc.IH [OF Suc.prems, of s'] rec g by simp
  with aw rec g Suc.prems show ?case
    by (auto simp: Let_def post_increment_def get_set_entry_other
        split: settled.splits option.splits)
qed

lemma fetch_alone_unreturned_keeps_keys:
  assumes "\<forall>d. fst (fetch fuel k' (alone operation) opts tries s) \<noteq> Returned d"
  shows "get (fst (snd (fetch fuel k' (alone operation) opts tries s))) k = get s k"
proof -
  have "get (((\<lambda>w. snd (alone operation w)) ^^ n) s) k = get s k" for n
    by (rule funpow_keeps [where P = "\<lambda>w. get w k"]) simp
  with fetch_unreturned_world [OF assms] show ?thesis by simp
qed

text \<open>
  The recursive call is made with the value of \<^verbatim>\<open>tries++\<close>, which is \<^verbatim>\<open>tries\<close>: a call
  that starts below three stays below three, and never reaches the \<^verbatim>\<open>throw\<close>.
\<close>

lemma fetch_below_three_no_throw:
  "tries < 3 \<Longrightarrow> fst (fetch fuel k fetchFn opts tries s) \<noteq> Threw e"
proof (induction fuel arbitrary: s)
  case 0
  then show ?case by simp
next
  case (Suc fuel)
  obtain r s' where aw: "fetchFn s = (r, s')"
    by (cases "fetchFn s")
  obtain r' s'' n where rec: "fetch fuel k fetchFn opts tries s' = (r', s'', n)"
    by (cases "fetch fuel k fetchFn opts tries s'")
  from Suc.IH [OF Suc.prems, of s'] rec have "r' \<noteq> Threw e" by simp
  with Suc.prems aw rec show ?case
    by (simp add: Let_def post_increment_def split: settled.splits option.splits)
qed
subsection \<open>The listeners notified by \<^verbatim>\<open>invalidateCache\<close>\<close>



lemma notify_fold_absent:
  assumes "\<forall>cb e w. get w k = None \<longrightarrow> get (snd (call cb e w)) k = None"
  shows "get s k = None \<Longrightarrow>
     get (fst (foldl (\<lambda>(w, tr) cb. (snd (call cb Refetch w), tr @ [Invoked cb Refetch]))
        (s, tr0) rest)) k = None"
  using assms by (induction rest arbitrary: s tr0) simp_all

lemma invalidateCache_absent:
  assumes "\<forall>cb e w. get w k = None \<longrightarrow> get (snd (call cb e w)) k = None"
    and "get (delete_entry s k') k = None"
  shows "get (fst (snd (invalidateCache call s k'))) k = None"
proof (cases "listeners s k'")
  case None
  with assms(2) show ?thesis by (simp add: invalidateCache_def)
next
  case (Some arr)
  show ?thesis
  proof (cases arr)
    case Nil
    with Some assms(2) show ?thesis by (simp add: invalidateCache_def)
  next
    case (Cons primary rest)
    obtain r s2 where c: "call primary Refetch (delete_entry s k') = (r, s2)"
      by (cases "call primary Refetch (delete_entry s k')")
    have s2: "get s2 k = None"
      using assms c by (metis snd_conv)
    have "get (fst (thenCallback call k' rest s2)) k = None"
      using notify_fold_absent [OF assms(1) s2] s2 by (simp add: thenCallback_def)
    with Some Cons c s2 show ?thesis
      by (auto simp: invalidateCache_def split: settled.splits prod.splits)
  qed
qed

subsection \<open>Listener arrays\<close>

lemma attachListener_nonempty:
  "[] \<notin> ran (listeners s) \<Longrightarrow> [] \<notin> ran (listeners (attachListener s k cb))"
  by (auto simp: attachListener_appends ran_def split: if_splits)

lemma notify_fold_nonempty:
  assumes "\<forall>cb e w. [] \<notin> ran (listeners w) \<longrightarrow> [] \<notin> ran (listeners (snd (call cb e w)))"
  shows "[] \<notin> ran (listeners s) \<Longrightarrow>
     [] \<notin> ran (listeners (fst (foldl (\<lambda>(w, tr) cb. (snd (call cb Refetch w), tr @ [Invoked cb Refetch]))
        (s, tr0) rest)))"
  using assms by (induction rest arbitrary: s tr0) simp_all

lemma invalidateCache_nonempty:
  assumes "\<forall>cb e w. [] \<notin> ran (listeners w) \<longrightarrow> [] \<notin> ran (listeners (snd (call cb e w)))"
    and "[] \<notin> ran (listeners s)"
  shows "[] \<notin> ran (listeners (fst (snd (invalidateCache call s k))))"
proof (cases "listeners s k")
  case None
  with assms(2) show ?thesis by (simp add: invalidateCache_def)
next
  case (Some arr)
  then obtain primary rest where arr: "arr = primary # rest"
    using assms(2) by (cases arr) (auto simp: ran_def)
  obtain r s2 where c: "call primary Refetch (delete_entry s k) = (r, s2)"
    by (cases "call primary Refetch (delete_entry s k)")
  have s2: "[] \<notin> ran (listeners s2)"
    using assms(1) assms(2) c
    by (metis listeners_delete_entry snd_conv)
  have "[] \<notin> ran (listeners (fst (thenCallback call k rest s2)))"
    using notify_fold_nonempty [OF assms(1) s2] s2 by (simp add: thenCallback_def)
  with Some arr c s2 show ?thesis
    by (auto simp: invalidateCache_def split: settled.splits prod.splits)
qed

lemma perform_nonempty:
  assumes "\<forall>cb e w. [] \<notin> ran (listeners w) \<longrightarrow> [] \<notin> ran (listeners (snd (call cb e w)))"
    and "[] \<notin> ran (listeners s)"
  shows "[] \<notin> ran (listeners (perform fuel call s c))"
  using assms by (cases c) (simp_all add: attachListener_nonempty invalidateCache_nonempty)

lemma perform_all_nonempty:
  assumes "\<forall>cb e w. [] \<notin> ran (listeners w) \<longrightarrow> [] \<notin> ran (listeners (snd (call cb e w)))"
  shows "[] \<notin> ran (listeners s) \<Longrightarrow> [] \<notin> ran (listeners (perform_all fuel call s calls))"
  unfolding perform_all_def
  using assms by (induction calls arbitrary: s) (simp_all add: perform_nonempty)

lemma invalidateCache_no_TypeError:
  "[] \<notin> ran (listeners s) \<Longrightarrow> fst (invalidateCache call s k) \<noteq> Some TypeError"
  by (auto simp: invalidateCache_def Let_def ran_def
      split: option.splits list.splits settled.splits prod.splits)

subsection \<open>Histories that do not write a key\<close>

lemma perform_absent:
  assumes "\<forall>cb e w. get w k = None \<longrightarrow> get (snd (call cb e w)) k = None"
    and "get s k = None" and "\<not> writes_entry fuel k s c"
  shows "get (perform fuel call s c) k = None"
proof (cases c)
  case (DoFetch k' operation opts tries)
  show ?thesis
  proof (cases "k' = k")
    case True
    with DoFetch assms(3)
    have "\<forall>d. fst (fetch fuel k' (alone operation) opts tries s) \<noteq> Returned d"
      by (auto split: outcome.splits)
    with DoFetch assms(2) show ?thesis by (simp add: fetch_alone_unreturned_keeps_keys)
  next
    case False
    with DoFetch assms(2) show ?thesis by (simp add: fetch_alone_keeps_other_keys)
  qed
next
  case (DoInvalidateCache k')
  with assms show ?thesis
    by (simp add: invalidateCache_absent get_delete_entry)
qed (use assms in \<open>simp_all add: get_set_entry_other\<close>)

lemma perform_all_absent:
  assumes "\<forall>cb e w. get w k = None \<longrightarrow> get (snd (call cb e w)) k = None"
  shows "get s k = None \<Longrightarrow> no_write fuel call k s calls \<Longrightarrow>
     get (perform_all fuel call s calls) k = None"
  unfolding perform_all_def
  using assms by (induction calls arbitrary: s) (simp_all add: perform_absent)

lemma no_write_take:
  "no_write fuel call k s calls \<Longrightarrow> no_write fuel call k s (take n calls)"
proof (induction calls arbitrary: s n)
  case Nil
  then show ?case by simp
next
  case (Cons c calls)
  then show ?case by (cases n) simp_all
qed

section \<open>The claims\<close>

text \<open>
  C1. The claim: with a fetch function that fails on every invocation, \<^verbatim>\<open>fetch\<close> called
  with \<^verbatim>\<open>tries = 0\<close> invokes it at most four times and then fails with the error naming
  the key. The source does not do this. The retry is
  \<^verbatim>\<open>this.fetch(queryKey, fetchFn, opts, tries++)\<close>, and the value of \<^verbatim>\<open>tries++\<close> is the
  old \<^verbatim>\<open>tries\<close>, so the test \<^verbatim>\<open>tries >= 3\<close> sees the same number in every nested call.
  What holds instead: for a call below three on an absent or expired entry, with a fetch
  function awaited alone, however many nested calls are followed, the promise is still
  pending and the fetch function has been invoked once per nested call.
\<close>

theorem fetch_never_exhausts_retries:
  assumes "\<forall>x. fst (operation x) = Rejected"
    and "tries < 3"
    and "needsFetch (get s k) opts (clock s)"
  shows "fst (fetch fuel k (alone operation) opts tries s) = Pending \<and>
         snd (snd (fetch fuel k (alone operation) opts tries s)) = fuel"
  using assms(3)
proof (induction fuel arbitrary: s)
  case 0
  then show ?case by simp
next
  case (Suc fuel)
  obtain r s' where aw: "alone operation s = (r, s')"
    by (cases "alone operation s")
  have r: "r = Rejected"
    using aw assms(1) [rule_format, of "outside s"]
    by (auto simp: alone_def split: prod.splits)
  have "needsFetch (get s' k) opts (clock s')"
    using needsFetch_alone [OF Suc.prems, of operation] aw by simp
  from Suc.IH [OF this]
  obtain w where "fetch fuel k (alone operation) opts tries s' = (Pending, w, fuel)"
    by (cases "fetch fuel k (alone operation) opts tries s'") auto
  with Suc.prems aw r assms(2) show ?case
    by (simp add: post_increment_def)
qed

theorem fetch_never_exhausts_retries_witness:
  "fst (fetch 5 ''user:1'' (alone (\<lambda>x. (Rejected, 40, x))) None 0
          (generateQueryProvider 0 () :: (nat, unit, unit) world)) = Pending \<and>
   snd (snd (fetch 5 ''user:1'' (alone (\<lambda>x. (Rejected, 40, x))) None 0
          (generateQueryProvider 0 () :: (nat, unit, unit) world))) = 5"
proof -
  let ?s = "generateQueryProvider 0 () :: (nat, unit, unit) world"
  have f: "\<forall>x::unit. fst (Rejected :: nat settled, 40::nat, x) = Rejected" by simp
  have t: "(0::int) < 3" by simp
  have n: "needsFetch (get ?s ''user:1'') None (clock ?s)"
    by (simp add: get_def generateQueryProvider_def)
  from fetch_never_exhausts_retries [OF f t n, of 5] show ?thesis by simp
qed

text \<open>
  C2. If the store holds an entry for the key and \<open>now - insertedAt < ttl * 1000\<close>, then
  \<^verbatim>\<open>fetch\<close> returns the stored value at once: the fetch function is invoked zero times
  and the world (store, listener arrays, clock, outside) is the one it was called in.
\<close>

theorem fetch_fresh_returns_cached:
  assumes "get s queryKey = Some c"
    and "age_below (clock s - insertedAt c) (timeout opts)"
  shows "fetch (Suc fuel) queryKey fetchFn opts tries s = (Returned (data c), s, 0)"
  using assms(1) age_at_most_fresh [OF age_below_at_most [OF assms(2)]]
  by simp

theorem fetch_fresh_returns_cached_witness:
  "get ((set_entry (generateQueryProvider 0 ()) ''user:1'' 1 :: (nat, unit, unit) world)\<lparr>clock := 299999\<rparr>)
     ''user:1'' = Some \<lparr>insertedAt = 0, data = 1\<rparr> \<and>
   age_below 299999 (Num 300) \<and>
   fetch 1 ''user:1'' (alone (\<lambda>x. (Fulfilled 2, 40, x))) None 0
     ((set_entry (generateQueryProvider 0 ()) ''user:1'' 1 :: (nat, unit, unit) world)\<lparr>clock := 299999\<rparr>)
   = (Returned 1, (set_entry (generateQueryProvider 0 ()) ''user:1'' 1)\<lparr>clock := 299999\<rparr>, 0)"
proof -
  let ?s = "(set_entry (generateQueryProvider 0 ()) ''user:1'' 1 :: (nat, unit, unit) world)\<lparr>clock := 299999\<rparr>"
  have g: "get ?s ''user:1'' = Some \<lparr>insertedAt = 0, data = 1\<rparr>"
    by (simp add: get_def set_entry_def generateQueryProvider_def)
  have a: "age_below (clock ?s - insertedAt \<lparr>insertedAt = 0, data = 1::nat\<rparr>) (timeout None)"
    by (simp add: timeout_def double_numeral)
  from fetch_fresh_returns_cached [OF g a, of 0 "alone (\<lambda>x. (Fulfilled 2, 40, x))" 0] g a
  show ?thesis by (simp add: timeout_def)
qed

text \<open>
  C3, as the source has it. For a call below three whose fetch function succeeds: if the
  entry is absent, or past its time by the test of line 59 (the quotient
  \<^verbatim>\<open>(now - insertedAt) / 1000\<close>, rounded to a double, is greater than the time to live),
  the fetch function is invoked exactly once, its value is returned and stored. Otherwise
  the stored value is returned and the fetch function is not invoked; this is so whenever
  \<open>now - insertedAt \<le> ttl * 1000\<close>, the boundary \<open>now - insertedAt = ttl * 1000\<close> included.
\<close>

theorem fetch_stale_invokes_once:
  assumes "tries < 3" and "fetchFn s = (Fulfilled v, s')"
  shows "fetch (Suc fuel) k fetchFn opts tries s =
     (case get s k of
        None \<Rightarrow> (Returned v, set_entry s' k v, 1)
      | Some c \<Rightarrow>
          if age_at_most (clock s - insertedAt c) (timeout opts) then (Returned (data c), s, 0)
          else if exceeds (double (of_int (clock s - insertedAt c) / 1000)) (timeout opts)
          then (Returned v, set_entry s' k v, 1)
          else (Returned (data c), s, 0))"
proof (cases "get s k")
  case None
  with assms show ?thesis by simp
next
  case (Some c)
  show ?thesis
  proof (cases "age_at_most (clock s - insertedAt c) (timeout opts)")
    case True
    from age_at_most_fresh [OF this] Some True show ?thesis by simp
  next
    case False
    with Some assms show ?thesis by (simp add: needsFetch_def)
  qed
qed

theorem fetch_stale_invokes_once_witness:
  "fetch 1 ''user:1'' (alone (\<lambda>x. (Fulfilled 2, 40, x))) None 0
     ((set_entry (generateQueryProvider 0 ()) ''user:1'' 1 :: (nat, unit, unit) world)\<lparr>clock := 301000\<rparr>)
   = (Returned 2,
      \<lparr>cachemap = [''user:1'' \<mapsto> \<lparr>insertedAt = 301040, data = 2\<rparr>], listeners = Map.empty,
       clock = 301040, outside = ()\<rparr>, 1)"
proof -
  let ?s = "(set_entry (generateQueryProvider 0 ()) ''user:1'' 1 :: (nat, unit, unit) world)\<lparr>clock := 301000\<rparr>"
  have t: "(0::int) < 3" by simp
  have f: "alone (\<lambda>x. (Fulfilled (2::nat), 40, x)) ?s = (Fulfilled 2, ?s\<lparr>clock := 301040\<rparr>)"
    by (simp add: alone_def set_entry_def generateQueryProvider_def)
  from fetch_stale_invokes_once [of 0 "alone (\<lambda>x. (Fulfilled 2, 40, x))" ?s 2
      "?s\<lparr>clock := 301040\<rparr>" 0 "''user:1''" None, OF t f]
  show ?thesis
    by (simp add: get_def set_entry_def generateQueryProvider_def timeout_def double_numeral)
qed

text \<open>
  C3 as claimed fails at the boundary: an entry set at time 0 and fetched at time 300000
  with the default 300 seconds is not below \<open>ttl * 1000\<close>, and the stored value comes back
  with no invocation.
\<close>

theorem fetch_boundary_counterexample:
  "get ((set_entry (generateQueryProvider 0 ()) ''user:1'' 1 :: (nat, unit, unit) world)\<lparr>clock := 300000\<rparr>)
     ''user:1'' = Some \<lparr>insertedAt = 0, data = 1\<rparr> \<and>
   \<not> age_below (300000 - 0) (timeout None) \<and>
   fetch 1 ''user:1'' (alone (\<lambda>x. (Fulfilled 2, 40, x))) None 0
     ((set_entry (generateQueryProvider 0 ()) ''user:1'' 1 :: (nat, unit, unit) world)\<lparr>clock := 300000\<rparr>)
   = (Returned 1, (set_entry (generateQueryProvider 0 ()) ''user:1'' 1)\<lparr>clock := 300000\<rparr>, 0)"
  by (simp add: get_def set_entry_def generateQueryProvider_def timeout_def needsFetch_def
      double_numeral)



text \<open>
  C5, as the source has it. \<^verbatim>\<open>timeoutInSeconds\<close> is the time to live of the freshness
  test (300 when omitted), and nothing else. Two calls that differ only in it have the
  same outcome, the same resulting world and the same number of invocations, whenever
  every freshness test that the call and its retries make comes out the same under both
  values.
\<close>

theorem fetch_timeout_only_through_freshness:
  assumes "tests_agree fuel k fetchFn opts1 opts2 tries s"
  shows "fetch fuel k fetchFn opts1 tries s = fetch fuel k fetchFn opts2 tries s"
  using assms
proof (induction fuel arbitrary: s)
  case 0
  then show ?case by simp
next
  case (Suc fuel)
  obtain r s' where aw: "fetchFn s = (r, s')"
    by (cases "fetchFn s")
  from Suc.prems
  have same: "needsFetch (get s k) opts1 (clock s) = needsFetch (get s k) opts2 (clock s)"
    by simp
  show ?case
  proof (cases "needsFetch (get s k) opts1 (clock s) \<and> tries < 3 \<and> r = Rejected")
    case True
    with Suc.prems aw have "tests_agree fuel k fetchFn opts1 opts2 tries s'" by simp
    from Suc.IH [OF this] True same aw show ?thesis
      by (simp add: post_increment_def)
  next
    case False
    with same aw show ?thesis
      by (cases r) (auto simp: Let_def)
  qed
qed

theorem fetch_timeout_only_through_freshness_witness:
  "tests_agree 2 ''user:1''
     (\<lambda>w. (if get w ''user:1'' = None then Rejected else Fulfilled 2,
            (set_entry w ''user:1'' 9)\<lparr>clock := clock w + 10000\<rparr>))
     (Some \<lparr>timeoutInSeconds = Some (Num 5)\<rparr>) (Some \<lparr>timeoutInSeconds = Some (Num 7)\<rparr>) 0
     (generateQueryProvider 0 () :: (nat, unit, unit) world) \<and>
   fetch 2 ''user:1''
     (\<lambda>w. (if get w ''user:1'' = None then Rejected else Fulfilled 2,
            (set_entry w ''user:1'' 9)\<lparr>clock := clock w + 10000\<rparr>))
     (Some \<lparr>timeoutInSeconds = Some (Num 5)\<rparr>) 0
     (generateQueryProvider 0 () :: (nat, unit, unit) world)
   = fetch 2 ''user:1''
     (\<lambda>w. (if get w ''user:1'' = None then Rejected else Fulfilled 2,
            (set_entry w ''user:1'' 9)\<lparr>clock := clock w + 10000\<rparr>))
     (Some \<lparr>timeoutInSeconds = Some (Num 7)\<rparr>) 0
     (generateQueryProvider 0 () :: (nat, unit, unit) world)"
proof -
  let ?f = "\<lambda>w::(nat, unit, unit) world.
     (if get w ''user:1'' = None then Rejected else Fulfilled (2::nat),
      (set_entry w ''user:1'' 9)\<lparr>clock := clock w + 10000\<rparr>)"
  let ?s = "generateQueryProvider 0 () :: (nat, unit, unit) world"
  have a: "tests_agree 2 ''user:1'' ?f
     (Some \<lparr>timeoutInSeconds = Some (Num 5)\<rparr>) (Some \<lparr>timeoutInSeconds = Some (Num 7)\<rparr>) 0 ?s"
    by (simp add: numeral_2_eq_2 get_def set_entry_def generateQueryProvider_def
        needsFetch_def timeout_def double_numeral)
  from fetch_timeout_only_through_freshness [OF a] a show ?thesis by simp
qed

text \<open>
  C5 as claimed fails: for an entry ten seconds old, a call with
  \<^verbatim>\<open>timeoutInSeconds: 5\<close> invokes the fetch function and overwrites the entry, and the same
  call without the option returns the stored value.
\<close>

theorem fetch_timeout_counterexample:
  "fetch 1 ''user:1'' (alone (\<lambda>x. (Fulfilled 2, 40, x))) (Some \<lparr>timeoutInSeconds = Some (Num 5)\<rparr>) 0
     ((set_entry (generateQueryProvider 0 ()) ''user:1'' 1 :: (nat, unit, unit) world)\<lparr>clock := 10000\<rparr>)
   = (Returned 2,
      \<lparr>cachemap = [''user:1'' \<mapsto> \<lparr>insertedAt = 10040, data = 2\<rparr>], listeners = Map.empty,
       clock = 10040, outside = ()\<rparr>, 1) \<and>
   fetch 1 ''user:1'' (alone (\<lambda>x. (Fulfilled 2, 40, x))) None 0
     ((set_entry (generateQueryProvider 0 ()) ''user:1'' 1 :: (nat, unit, unit) world)\<lparr>clock := 10000\<rparr>)
   = (Returned 1,
      \<lparr>cachemap = [''user:1'' \<mapsto> \<lparr>insertedAt = 0, data = 1\<rparr>], listeners = Map.empty,
       clock = 10000, outside = ()\<rparr>, 0)"
  by (simp add: get_def set_entry_def generateQueryProvider_def timeout_def needsFetch_def
      alone_def double_numeral)

text \<open>
  C6. A call of \<^verbatim>\<open>fetch\<close> that has failed with the error naming the key, or whose
  attempts so far have all failed, has written nothing: the world is the one it was
  called in, passed through the awaited invocations. So when what is awaited leaves the
  store and the listener arrays alone, both are exactly as they were at the start of the
  call. A call that fails with the error naming the key has not invoked the fetch function
  at all, and its world is the one it was called in.
\<close>

theorem fetch_failure_writes_nothing:
  assumes "fst (fetch fuel k fetchFn opts tries s) = Threw (exhausted k) \<or>
           fst (fetch fuel k fetchFn opts tries s) = Pending"
  shows "fst (snd (fetch fuel k fetchFn opts tries s)) =
           ((\<lambda>w. snd (fetchFn w)) ^^ snd (snd (fetch fuel k fetchFn opts tries s))) s \<and>
         ((\<forall>w. cachemap (snd (fetchFn w)) = cachemap w \<and> listeners (snd (fetchFn w)) = listeners w) \<longrightarrow>
            cachemap (fst (snd (fetch fuel k fetchFn opts tries s))) = cachemap s \<and>
            listeners (fst (snd (fetch fuel k fetchFn opts tries s))) = listeners s) \<and>
         (fst (fetch fuel k fetchFn opts tries s) = Threw (exhausted k) \<longrightarrow>
            fst (snd (fetch fuel k fetchFn opts tries s)) = s \<and>
            snd (snd (fetch fuel k fetchFn opts tries s)) = 0)"
proof -
  let ?w = "fst (snd (fetch fuel k fetchFn opts tries s))"
  let ?n = "snd (snd (fetch fuel k fetchFn opts tries s))"
  from assms have "\<forall>d. fst (fetch fuel k fetchFn opts tries s) \<noteq> Returned d" by auto
  from fetch_unreturned_world [OF this]
  have w: "?w = ((\<lambda>w. snd (fetchFn w)) ^^ ?n) s" .
  have quiet: "cachemap ?w = cachemap s \<and> listeners ?w = listeners s"
    if q: "\<forall>w. cachemap (snd (fetchFn w)) = cachemap w \<and> listeners (snd (fetchFn w)) = listeners w"
  proof -
    have "cachemap (((\<lambda>w. snd (fetchFn w)) ^^ n) s) = cachemap s" for n
      by (rule funpow_keeps [where P = cachemap]) (use q in simp)
    moreover have "listeners (((\<lambda>w. snd (fetchFn w)) ^^ n) s) = listeners s" for n
      by (rule funpow_keeps [where P = listeners]) (use q in simp)
    ultimately show ?thesis using w by simp
  qed
  have thrown: "?w = s \<and> ?n = 0" if t: "fst (fetch fuel k fetchFn opts tries s) = Threw (exhausted k)"
  proof (cases "tries < 3")
    case True
    from fetch_below_three_no_throw [OF True, of fuel k fetchFn opts s "exhausted k"] t
    show ?thesis by simp
  next
    case False
    with t show ?thesis
      by (cases fuel) (auto simp: Let_def split: if_splits option.splits)
  qed
  from w quiet thrown show ?thesis by blast
qed

theorem fetch_failure_writes_nothing_witness:
  "fst (fetch 3 ''user:1'' (alone (\<lambda>x. (Rejected, 1000, x))) None 0
     ((set_entry (attachListener (generateQueryProvider 0 ()) ''user:1'' 1) ''user:1'' 5
        :: (nat, nat, unit) world)\<lparr>clock := 400000\<rparr>)) = Pending \<and>
   snd (snd (fetch 3 ''user:1'' (alone (\<lambda>x. (Rejected, 1000, x))) None 0
     ((set_entry (attachListener (generateQueryProvider 0 ()) ''user:1'' 1) ''user:1'' 5
        :: (nat, nat, unit) world)\<lparr>clock := 400000\<rparr>))) = 3 \<and>
   cachemap (fst (snd (fetch 3 ''user:1'' (alone (\<lambda>x. (Rejected, 1000, x))) None 0
     ((set_entry (attachListener (generateQueryProvider 0 ()) ''user:1'' 1) ''user:1'' 5
        :: (nat, nat, unit) world)\<lparr>clock := 400000\<rparr>))))
     = [''user:1'' \<mapsto> \<lparr>insertedAt = 0, data = 5\<rparr>] \<and>
   listeners (fst (snd (fetch 3 ''user:1'' (alone (\<lambda>x. (Rejected, 1000, x))) None 0
     ((set_entry (attachListener (generateQueryProvider 0 ()) ''user:1'' 1) ''user:1'' 5
        :: (nat, nat, unit) world)\<lparr>clock := 400000\<rparr>))))
     = [''user:1'' \<mapsto> [1]] \<and>
   fetch 1 ''user:1'' (alone (\<lambda>x. (Rejected, 1000, x))) None 3
     (generateQueryProvider 0 () :: (nat, nat, unit) world)
     = (Threw (exhausted ''user:1''), generateQueryProvider 0 (), 0)"
proof -
  let ?f = "alone (\<lambda>x::unit. (Rejected :: nat settled, 1000::nat, x)) :: (nat, nat, unit) fetchFn"
  let ?s = "(set_entry (attachListener (generateQueryProvider 0 ()) ''user:1'' 1) ''user:1'' 5
        :: (nat, nat, unit) world)\<lparr>clock := 400000\<rparr>"
  let ?e = "generateQueryProvider 0 () :: (nat, nat, unit) world"
  have p: "fst (fetch 3 ''user:1'' ?f None 0 ?s) = Pending \<and> snd (snd (fetch 3 ''user:1'' ?f None 0 ?s)) = 3"
    by (simp add: numeral_3_eq_3 get_def set_entry_def attachListener_def generateQueryProvider_def
        needsFetch_def timeout_def alone_def post_increment_def double_numeral)
  then have h: "fst (fetch 3 ''user:1'' ?f None 0 ?s) = Threw (exhausted ''user:1'') \<or>
      fst (fetch 3 ''user:1'' ?f None 0 ?s) = Pending" by simp
  have q: "\<forall>w. cachemap (snd (?f w)) = cachemap w \<and> listeners (snd (?f w)) = listeners w"
    by (simp add: alone_def)
  have t: "fst (fetch 1 ''user:1'' ?f None 3 ?e) = Threw (exhausted ''user:1'')"
    by (simp add: get_def generateQueryProvider_def)
  then have h0: "fst (fetch 1 ''user:1'' ?f None 3 ?e) = Threw (exhausted ''user:1'') \<or>
      fst (fetch 1 ''user:1'' ?f None 3 ?e) = Pending" by simp
  have "cachemap (fst (snd (fetch 3 ''user:1'' ?f None 0 ?s))) = cachemap ?s \<and>
        listeners (fst (snd (fetch 3 ''user:1'' ?f None 0 ?s))) = listeners ?s"
    using fetch_failure_writes_nothing [OF h] q by blast
  moreover have "fst (snd (fetch 1 ''user:1'' ?f None 3 ?e)) = ?e \<and>
        snd (snd (fetch 1 ''user:1'' ?f None 3 ?e)) = 0"
    using fetch_failure_writes_nothing [OF h0] t by blast
  ultimately show ?thesis
    using p t
    by (simp add: set_entry_def attachListener_def generateQueryProvider_def prod_eq_iff)
qed

text \<open>
  C7, as the source has it. Called with \<^verbatim>\<open>tries = 0\<close>, with a fetch function that fails
  on its first two invocations and succeeds on the third, on an entry that is absent or
  past its time by the test of line 59 at the call and again at each of the two retries,
  \<^verbatim>\<open>fetch\<close> returns the value of the third invocation after exactly three invocations,
  and the store holds that value for the key, stamped with the time at which the third
  invocation settled.
\<close>

theorem fetch_third_attempt_succeeds:
  assumes "needsFetch (get s k) opts (clock s)"
    and "fetchFn s = (Rejected, s1)"
    and "needsFetch (get s1 k) opts (clock s1)"
    and "fetchFn s1 = (Rejected, s2)"
    and "needsFetch (get s2 k) opts (clock s2)"
    and "fetchFn s2 = (Fulfilled v, s3)"
  shows "fetch (Suc (Suc (Suc fuel))) k fetchFn opts 0 s =
     (Returned v, s3\<lparr>cachemap := (cachemap s3)(k \<mapsto> \<lparr>insertedAt = clock s3, data = v\<rparr>)\<rparr>, 3)"
proof -
  have "fetch (Suc fuel) k fetchFn opts 0 s2 = (Returned v, set_entry s3 k v, 1)"
    using assms(5,6) by simp
  then have "fetch (Suc (Suc fuel)) k fetchFn opts 0 s1 = (Returned v, set_entry s3 k v, 2)"
    using assms(3,4) by (simp add: post_increment_def)
  then have "fetch (Suc (Suc (Suc fuel))) k fetchFn opts 0 s = (Returned v, set_entry s3 k v, 3)"
    using assms(1,2) by (simp add: post_increment_def)
  then show ?thesis by (simp add: set_entry_def)
qed

theorem fetch_third_attempt_succeeds_witness:
  "fetch 3 ''user:1''
     (\<lambda>w. (if outside w < 2 then Rejected else Fulfilled 42,
            (set_entry w ''user:2'' 9)\<lparr>clock := clock w + 1000, outside := Suc (outside w)\<rparr>))
     None 0
     ((set_entry (generateQueryProvider 0 0) ''user:1'' 1 :: (nat, unit, nat) world)\<lparr>clock := 400000\<rparr>)
   = (Returned 42,
      \<lparr>cachemap = [''user:1'' \<mapsto> \<lparr>insertedAt = 403000, data = 42\<rparr>,
                   ''user:2'' \<mapsto> \<lparr>insertedAt = 402000, data = 9\<rparr>],
       listeners = Map.empty, clock = 403000, outside = 3\<rparr>, 3)"
proof -
  let ?f = "\<lambda>w::(nat, unit, nat) world.
     (if outside w < 2 then Rejected else Fulfilled (42::nat),
      (set_entry w ''user:2'' 9)\<lparr>clock := clock w + 1000, outside := Suc (outside w)\<rparr>)"
  let ?a = "(set_entry (generateQueryProvider 0 0) ''user:1'' 1 :: (nat, unit, nat) world)\<lparr>clock := 400000\<rparr>"
  let ?b = "(set_entry ?a ''user:2'' 9)\<lparr>clock := 401000, outside := 1\<rparr>"
  let ?c = "(set_entry ?b ''user:2'' 9)\<lparr>clock := 402000, outside := 2\<rparr>"
  let ?d = "(set_entry ?c ''user:2'' 9)\<lparr>clock := 403000, outside := 3\<rparr>"
  have n0: "needsFetch (get ?a ''user:1'') None (clock ?a)"
    by (simp add: get_def set_entry_def generateQueryProvider_def needsFetch_def timeout_def
        double_numeral)
  have f1: "?f ?a = (Rejected, ?b)"
    by (simp add: set_entry_def generateQueryProvider_def)
  have n1: "needsFetch (get ?b ''user:1'') None (clock ?b)"
    by (simp add: get_def set_entry_def generateQueryProvider_def needsFetch_def timeout_def
        double_numeral)
  have f2: "?f ?b = (Rejected, ?c)"
    by (simp add: set_entry_def generateQueryProvider_def)
  have n2: "needsFetch (get ?c ''user:1'') None (clock ?c)"
    by (simp add: get_def set_entry_def generateQueryProvider_def needsFetch_def timeout_def
        double_numeral)
  have f3: "?f ?c = (Fulfilled 42, ?d)"
    by (simp add: set_entry_def generateQueryProvider_def numeral_3_eq_3)
  from fetch_third_attempt_succeeds [of ?a "''user:1''" None ?f ?b ?c 42 ?d 0, OF n0 f1 n1 f2 n2 f3]
  show ?thesis
    by (simp add: numeral_3_eq_3 set_entry_def generateQueryProvider_def fun_upd_twist)
qed

text \<open>
  C7 as claimed fails at the boundary \<open>now - insertedAt = ttl * 1000\<close>, which the claims
  count as stale: the stored value comes back and the fetch function is never invoked.
\<close>

theorem fetch_third_attempt_counterexample:
  "get ((set_entry (generateQueryProvider 0 0) ''user:1'' 1 :: (nat, unit, nat) world)\<lparr>clock := 300000\<rparr>)
     ''user:1'' = Some \<lparr>insertedAt = 0, data = 1\<rparr> \<and>
   \<not> age_below (300000 - 0) (timeout None) \<and>
   fetch 3 ''user:1'' (alone (\<lambda>x. (if x < 2 then Rejected else Fulfilled 42, 1000, Suc x))) None 0
     ((set_entry (generateQueryProvider 0 0) ''user:1'' 1 :: (nat, unit, nat) world)\<lparr>clock := 300000\<rparr>)
   = (Returned 1, (set_entry (generateQueryProvider 0 0) ''user:1'' 1)\<lparr>clock := 300000\<rparr>, 0)"
  by (simp add: numeral_3_eq_3 get_def set_entry_def generateQueryProvider_def timeout_def
      needsFetch_def double_numeral)

text \<open>
  C8. After \<^verbatim>\<open>invalidateCache(k)\<close> has removed the entry, \<^verbatim>\<open>get(k)\<close> is absent, and it is
  absent after every further method call as long as none of them is \<^verbatim>\<open>set(k, ...)\<close> or a
  \<^verbatim>\<open>fetch\<close> for \<open>k\<close> that returns a value. Listeners run subscriber code; the first
  premise says that what they do writes no entry for \<open>k\<close> either.
\<close>

theorem invalidateCache_entry_absent_until_written:
  assumes "\<forall>cb e w. get w k = None \<longrightarrow> get (snd (call cb e w)) k = None"
    and "no_write fuel call k (fst (snd (invalidateCache call s k))) calls"
  shows "get (delete_entry s k) k = None \<and>
     (\<forall>n \<le> length calls.
        get (perform_all fuel call (fst (snd (invalidateCache call s k))) (take n calls)) k = None)"
proof -
  have d: "get (delete_entry s k) k = None"
    by (simp add: get_delete_entry)
  have "get (fst (snd (invalidateCache call s k))) k = None"
    by (rule invalidateCache_absent [OF assms(1) d])
  then have "get (perform_all fuel call (fst (snd (invalidateCache call s k))) (take n calls)) k = None"
    for n
    by (rule perform_all_absent [OF assms(1) _ no_write_take [OF assms(2)]])
  with d show ?thesis by simp
qed

theorem invalidateCache_entry_absent_until_written_witness:
  "no_write 2 (\<lambda>cb e w. (Fulfilled (), w)) ''user:1''
     (fst (snd (invalidateCache (\<lambda>cb e w. (Fulfilled (), w))
        (set_entry (attachListener (generateQueryProvider 0 ()) ''user:1'' 1) ''user:1'' 5
           :: (nat, nat, unit) world) ''user:1'')))
     [DoGet ''user:1'', DoSet ''user:2'' 9, DoFetch ''user:1'' (\<lambda>x. (Rejected, 40, x)) None 3,
      DoFetch ''user:2'' (\<lambda>x. (Fulfilled 2, 40, x)) None 0] \<and>
   get (perform_all 2 (\<lambda>cb e w. (Fulfilled (), w))
     (fst (snd (invalidateCache (\<lambda>cb e w. (Fulfilled (), w))
        (set_entry (attachListener (generateQueryProvider 0 ()) ''user:1'' 1) ''user:1'' 5
           :: (nat, nat, unit) world) ''user:1'')))
     [DoGet ''user:1'', DoSet ''user:2'' 9, DoFetch ''user:1'' (\<lambda>x. (Rejected, 40, x)) None 3,
      DoFetch ''user:2'' (\<lambda>x. (Fulfilled 2, 40, x)) None 0]) ''user:1'' = None"
proof -
  let ?call = "\<lambda>(cb::nat) (e::EventTypeEnum) (w::(nat, nat, unit) world). (Fulfilled (), w)"
  let ?s = "set_entry (attachListener (generateQueryProvider 0 ()) ''user:1'' 1) ''user:1'' 5
           :: (nat, nat, unit) world"
  let ?calls = "[DoGet ''user:1'', DoSet ''user:2'' 9, DoFetch ''user:1'' (\<lambda>x. (Rejected, 40, x)) None 3,
      DoFetch ''user:2'' (\<lambda>x. (Fulfilled 2, 40, x)) None 0] :: (nat, nat, unit) method_call list"
  have q: "\<forall>cb e w. get w ''user:1'' = None \<longrightarrow> get (snd (?call cb e w)) ''user:1'' = None"
    by simp
  have nw: "no_write 2 ?call ''user:1'' (fst (snd (invalidateCache ?call ?s ''user:1''))) ?calls"
    by (simp add: invalidateCache_def thenCallback_def delete_entry_def set_entry_def
        attachListener_def generateQueryProvider_def get_def numeral_2_eq_2)
  from invalidateCache_entry_absent_until_written [OF q nw, THEN conjunct2, THEN spec, of 4] nw
  show ?thesis by simp
qed

text \<open>
  C9, as the source has it. With \<^verbatim>\<open>tries\<close> at three or more, \<^verbatim>\<open>fetch\<close> on an entry that is
  absent, or past its time by the test of line 59, throws the error naming the key at once,
  without invoking the fetch function; on any other entry, and so whenever
  \<open>now - insertedAt \<le> ttl * 1000\<close>, the stored value is returned whatever \<^verbatim>\<open>tries\<close> is.
\<close>

theorem fetch_tries_at_least_three:
  assumes "3 \<le> tries \<or> \<not> needsFetch (get s k) opts (clock s)"
  shows "fetch (Suc fuel) k fetchFn opts tries s =
     (case get s k of
        None \<Rightarrow> (Threw (exhausted k), s, 0)
      | Some c \<Rightarrow>
          if age_at_most (clock s - insertedAt c) (timeout opts) then (Returned (data c), s, 0)
          else if exceeds (double (of_int (clock s - insertedAt c) / 1000)) (timeout opts)
          then (Threw (exhausted k), s, 0)
          else (Returned (data c), s, 0))"
proof (cases "get s k")
  case None
  with assms show ?thesis by simp
next
  case (Some c)
  show ?thesis
  proof (cases "age_at_most (clock s - insertedAt c) (timeout opts)")
    case True
    from age_at_most_fresh [OF this] Some True show ?thesis by simp
  next
    case False
    with Some assms show ?thesis by (auto simp: needsFetch_def)
  qed
qed

theorem fetch_tries_at_least_three_witness:
  "fetch 1 ''user:1'' (alone (\<lambda>x. (Fulfilled 2, 40, x))) None 5
     (generateQueryProvider 0 () :: (nat, unit, unit) world)
   = (Threw (exhausted ''user:1''), generateQueryProvider 0 (), 0) \<and>
   fetch 1 ''user:1'' (alone (\<lambda>x. (Fulfilled 2, 40, x))) None 5
     ((set_entry (generateQueryProvider 0 ()) ''user:1'' 1 :: (nat, unit, unit) world)\<lparr>clock := 301000\<rparr>)
   = (Threw (exhausted ''user:1''), (set_entry (generateQueryProvider 0 ()) ''user:1'' 1)\<lparr>clock := 301000\<rparr>, 0) \<and>
   fetch 1 ''user:1'' (alone (\<lambda>x. (Fulfilled 2, 40, x))) None 7
     ((set_entry (generateQueryProvider 0 ()) ''user:1'' 1 :: (nat, unit, unit) world)\<lparr>clock := 1000\<rparr>)
   = (Returned 1, (set_entry (generateQueryProvider 0 ()) ''user:1'' 1)\<lparr>clock := 1000\<rparr>, 0)"
proof -
  let ?f = "alone (\<lambda>x::unit. (Fulfilled (2::nat), 40::nat, x)) :: (nat, unit, unit) fetchFn"
  let ?a = "generateQueryProvider 0 () :: (nat, unit, unit) world"
  let ?b = "(set_entry ?a ''user:1'' 1)\<lparr>clock := 301000\<rparr>"
  let ?c = "(set_entry ?a ''user:1'' 1)\<lparr>clock := 1000\<rparr>"
  have ha: "(3::int) \<le> 5 \<or> \<not> needsFetch (get ?a ''user:1'') None (clock ?a)" by simp
  have hb: "(3::int) \<le> 5 \<or> \<not> needsFetch (get ?b ''user:1'') None (clock ?b)" by simp
  have hc: "(3::int) \<le> 7 \<or> \<not> needsFetch (get ?c ''user:1'') None (clock ?c)" by simp
  from fetch_tries_at_least_three [OF ha, of 0 ?f]
       fetch_tries_at_least_three [OF hb, of 0 ?f]
       fetch_tries_at_least_three [OF hc, of 0 ?f]
  show ?thesis
    by (simp add: get_def set_entry_def generateQueryProvider_def timeout_def double_numeral)
qed

text \<open>
  C9 as claimed fails at the boundary \<open>now - insertedAt = ttl * 1000\<close>, which the claims
  count as stale: with \<^verbatim>\<open>tries = 5\<close> the stored value comes back and nothing is thrown.
\<close>

theorem fetch_tries_counterexample:
  "get ((set_entry (generateQueryProvider 0 ()) ''user:1'' 1 :: (nat, unit, unit) world)\<lparr>clock := 300000\<rparr>)
     ''user:1'' = Some \<lparr>insertedAt = 0, data = 1\<rparr> \<and>
   \<not> age_below (300000 - 0) (timeout None) \<and>
   fetch 1 ''user:1'' (alone (\<lambda>x. (Fulfilled 2, 40, x))) None 5
     ((set_entry (generateQueryProvider 0 ()) ''user:1'' 1 :: (nat, unit, unit) world)\<lparr>clock := 300000\<rparr>)
   = (Returned 1, (set_entry (generateQueryProvider 0 ()) ''user:1'' 1)\<lparr>clock := 300000\<rparr>, 0)"
  by (simp add: get_def set_entry_def generateQueryProvider_def timeout_def needsFetch_def
      double_numeral)

text \<open>
  C10. No listener array in the map is empty: it holds of the provider as created, and
  every method call keeps it, provided the subscriber code run by listeners (which can
  reach the map through the methods only) keeps it. So the primary listener that
  \<^verbatim>\<open>invalidateCache\<close> calls is never \<^verbatim>\<open>undefined\<close>.
\<close>

theorem listener_arrays_never_empty:
  assumes "\<forall>cb e w. [] \<notin> ran (listeners w) \<longrightarrow> [] \<notin> ran (listeners (snd (call cb e w)))"
  shows "[] \<notin> ran (listeners (perform_all fuel call (generateQueryProvider now x) calls)) \<and>
         fst (invalidateCache call (perform_all fuel call (generateQueryProvider now x) calls) k)
           \<noteq> Some TypeError"
proof -
  have "[] \<notin> ran (listeners (perform_all fuel call (generateQueryProvider now x) calls))"
    by (rule perform_all_nonempty [OF assms]) (simp add: generateQueryProvider_def)
  then show ?thesis
    by (simp add: invalidateCache_no_TypeError)
qed

theorem listener_arrays_never_empty_witness:
  "[] \<notin> ran (listeners (perform_all 2 (\<lambda>cb e w. (Fulfilled (), set_entry w ''user:1'' cb))
       (generateQueryProvider 0 () :: (nat, nat, unit) world)
       [DoAttachListener ''user:1'' 1, DoAttachListener ''user:1'' 2, DoInvalidateCache ''user:1''])) \<and>
   fst (invalidateCache (\<lambda>cb e w. (Fulfilled (), set_entry w ''user:1'' cb))
       (perform_all 2 (\<lambda>cb e w. (Fulfilled (), set_entry w ''user:1'' cb))
          (generateQueryProvider 0 () :: (nat, nat, unit) world)
          [DoAttachListener ''user:1'' 1, DoAttachListener ''user:1'' 2, DoInvalidateCache ''user:1''])
       ''user:1'') \<noteq> Some TypeError"
proof -
  let ?call = "\<lambda>(cb::nat) (e::EventTypeEnum) (w::(nat, nat, unit) world).
     (Fulfilled (), set_entry w ''user:1'' cb)"
  have q: "\<forall>cb e w. [] \<notin> ran (listeners w) \<longrightarrow> [] \<notin> ran (listeners (snd (?call cb e w)))"
    by simp
  from listener_arrays_never_empty [OF q] show ?thesis by blast
qed

end
